theory Spec2Isabelle
  imports Main "HOL-Library.AList" "HOL-Library.Sublist" "HOL-Library.Multiset"
begin

section \<open>Data model of Mountie.ts\<close>

text \<open>
  JavaScript objects used as dictionaries (\<^verbatim>\<open>{[key:string]:T}\<close>) are association
  lists in insertion order: \<^verbatim>\<open>o[k] = v\<close> is \<^const>\<open>AList.update\<close> (an existing key keeps
  its place, a new key goes to the end), \<^verbatim>\<open>delete o[k]\<close> is \<^const>\<open>AList.delete\<close>,
  \<^verbatim>\<open>o[k]\<close> is \<^const>\<open>map_of\<close> (\<open>None\<close> for \<^verbatim>\<open>undefined\<close>) and
  \<^verbatim>\<open>Object.values(o)\<close> is \<open>map snd\<close>. Keys are taken not to be array indices or
  names of \<^verbatim>\<open>Object.prototype\<close> members (they are mount paths, device names and
  UUIDs).
\<close>

type_synonym 'v obj = "(string \<times> 'v) list"

text \<open>A JavaScript value that is a number or a string (the size fields of the raw
  entries of \<^verbatim>\<open>SystemInformation.fsSize()\<close>).\<close>

datatype jsval = Num int | Str string

fun String_js_empty :: "jsval \<Rightarrow> bool" where
  "String_js_empty (Num n) = False"
| "String_js_empty (Str s) = (s = [])"

record FsSize =
  available :: jsval
  total :: jsval
  used :: jsval

text \<open>
  The type \<^verbatim>\<open>FileSystem\<close>. The field \<^verbatim>\<open>filesystem\<close> is named \<open>fs_type\<close> and
  \<^verbatim>\<open>size\<close> is named \<open>fs_size\<close> (the method \<^verbatim>\<open>filesystem(path)\<close> and HOL's
  \<open>size\<close> have the plain names). The source types \<^verbatim>\<open>mountpoint\<close> as
  \<^verbatim>\<open>string|undefined\<close> and reads it as \<^verbatim>\<open>mountpoint!\<close> everywhere; the only
  place that builds a \<^verbatim>\<open>FileSystem\<close>, \<^verbatim>\<open>getNewState\<close>, always stores the raw
  entry's mount string, so the field is a string here.
\<close>

record FileSystem =
  device :: string
  label :: string
  fs_type :: string
  model :: "string option"
  mountpoint :: string
  mounted :: bool
  protocol :: string
  serial :: "string option"
  fs_size :: FsSize
  uuid :: string

datatype FileSystemEvent =
    Mount FileSystem
  | Rename FileSystem FileSystem
  | Unmount FileSystem

text \<open>\<open>Rename f old\<close> is \<^verbatim>\<open>{ filesystem: f, oldFilesystem: old, type: "rename" }\<close>.\<close>

fun is_mount :: "FileSystemEvent \<Rightarrow> bool" where
  "is_mount (Mount f) = True"
| "is_mount (Rename f old) = False"
| "is_mount (Unmount f) = False"

fun event_filesystem :: "FileSystemEvent \<Rightarrow> FileSystem" where
  "event_filesystem (Mount f) = f"
| "event_filesystem (Rename f old) = f"
| "event_filesystem (Unmount f) = f"

text \<open>The old-state entry an event of the unmount/rename pass was produced for.\<close>

fun event_old :: "FileSystemEvent \<Rightarrow> FileSystem option" where
  "event_old (Mount f) = None"
| "event_old (Rename f old) = Some old"
| "event_old (Unmount f) = Some f"

subsection \<open>The environment: platform and library functions\<close>

datatype platform = Darwin | Linux | Win32 | OtherPlatform

text \<open>
  \<^verbatim>\<open>process.platform\<close>, \<^verbatim>\<open>Path.sep\<close> and the library functions the module calls
  (\<^verbatim>\<open>String.prototype.toUpperCase\<close>, \<^verbatim>\<open>toLowerCase\<close>, \<^verbatim>\<open>localeCompare\<close> and
  \<^verbatim>\<open>UUID.v5\<close>) are parameters: every theorem below holds for all of them.
\<close>

record env =
  platform :: platform
  sep :: char
  toUpperCase :: "string \<Rightarrow> string"
  toLowerCase :: "string \<Rightarrow> string"
  localeCompare :: "string \<Rightarrow> string \<Rightarrow> int"
  uuid_v5 :: "string \<Rightarrow> string \<Rightarrow> string"

definition UUID_NAMESPACE :: string where
  "UUID_NAMESPACE = ''6ba7b815-9dad-11d1-80b4-00c04fd430c8''"

definition INTERVAL_LENGTH :: int where
  "INTERVAL_LENGTH = 10000"

definition SORT :: bool where
  "SORT = True"

subsection \<open>sortFilesystems\<close>

text \<open>
  \<^verbatim>\<open>Array.prototype.sort\<close> with a comparator is a stable sort: an insertion sort
  that puts an element before the first later element it does not compare greater than.
\<close>

fun insert_by :: "('a \<Rightarrow> 'a \<Rightarrow> int) \<Rightarrow> 'a \<Rightarrow> 'a list \<Rightarrow> 'a list" where
  "insert_by c x [] = [x]"
| "insert_by c x (y # ys) = (if c x y \<le> 0 then x # y # ys else y # insert_by c x ys)"

definition sort_by :: "('a \<Rightarrow> 'a \<Rightarrow> int) \<Rightarrow> 'a list \<Rightarrow> 'a list" where
  "sort_by c xs = foldr (insert_by c) xs []"

definition compare_darwin :: "env \<Rightarrow> FileSystem \<Rightarrow> FileSystem \<Rightarrow> int" where
  "compare_darwin e a b =
     (let aLabel = (if label a = [] then ''Untitled'' else label a);
          bLabel = (if label b = [] then ''Untitled'' else label b)
      in localeCompare e (toUpperCase e aLabel) (toUpperCase e bLabel))"

definition compare_default :: "env \<Rightarrow> FileSystem \<Rightarrow> FileSystem \<Rightarrow> int" where
  "compare_default e a b =
     (let aStr = (if mounted a then mountpoint a else device a);
          bStr = (if mounted b then mountpoint b else device b)
      in localeCompare e (toUpperCase e aStr) (toUpperCase e bStr))"

definition sortFilesystems :: "env \<Rightarrow> FileSystem list \<Rightarrow> FileSystem list" where
  "sortFilesystems e filesystems =
     (if \<not> SORT then filesystems
      else case platform e of
             Darwin \<Rightarrow> sort_by (compare_darwin e) filesystems
           | _ \<Rightarrow> sort_by (compare_default e) filesystems)"

subsection \<open>getNewState\<close>

text \<open>The fields of \<^verbatim>\<open>BlockDevicesData\<close> and \<^verbatim>\<open>FsSizeData\<close> that the module reads.\<close>

record BlockDevicesData =
  bd_name :: string
  bd_label :: string
  bd_protocol :: string
  bd_serial :: string
  bd_uuid :: string

record FsSizeData =
  raw_fs :: string
  raw_type :: string
  raw_mount :: string
  raw_size :: jsval
  raw_available :: jsval
  raw_used :: jsval

datatype error = TypeError | NotRunning

text \<open>\<^verbatim>\<open>devices.reduce( (R, dev) => ( {...R, [dev.name]:dev } ), {} )\<close>\<close>

definition deviceMap_of :: "BlockDevicesData list \<Rightarrow> BlockDevicesData obj" where
  "deviceMap_of devices = foldl (\<lambda>R dev. AList.update (bd_name dev) dev R) [] devices"

text \<open>
  \<^verbatim>\<open>IGNORED_MOUNT_POINTS_REGEX\<close>: each regular expression as the test it performs.
  The table has no entry for a platform other than the three, where the lookup is
  \<^verbatim>\<open>undefined\<close> and \<^verbatim>\<open>.every\<close> throws; \<open>getNewState\<close> below has that branch.
\<close>

definition IGNORED_MOUNT_POINTS_REGEX :: "platform \<Rightarrow> (string \<Rightarrow> bool) list" where
  "IGNORED_MOUNT_POINTS_REGEX p =
     (case p of
        Darwin \<Rightarrow>
          [\<lambda>s. s = [],
           \<lambda>s. prefix ''/private/'' s,
           \<lambda>s. s = ''/Volumes/Recovery'',
           \<lambda>s. prefix ''/System/'' s]
      | _ \<Rightarrow> [])"

definition keep_entry :: "env \<Rightarrow> BlockDevicesData obj \<Rightarrow> FsSizeData \<Rightarrow> bool" where
  "keep_entry e deviceMap r \<longleftrightarrow>
     list_all (\<lambda>regEx. regEx (raw_mount r) = False) (IGNORED_MOUNT_POINTS_REGEX (platform e))
     \<and> \<not> String_js_empty (raw_size r)
     \<and> (case map_of deviceMap (raw_fs r) of
          None \<Rightarrow> True
        | Some d \<Rightarrow> bd_protocol d \<noteq> ''Disk Image'')"

text \<open>\<^verbatim>\<open>s.split(sep).pop()\<close>: what follows the last separator.\<close>

definition split_pop :: "char \<Rightarrow> string \<Rightarrow> string" where
  "split_pop c s = rev (takeWhile (\<lambda>x. x \<noteq> c) (rev s))"

definition toFileSystem :: "env \<Rightarrow> BlockDevicesData obj \<Rightarrow> FsSizeData \<Rightarrow> FileSystem" where
  "toFileSystem e deviceMap r =
     (let dev = map_of deviceMap (raw_fs r) in
      \<lparr> device = raw_fs r,
        label = (case dev of Some d \<Rightarrow> bd_label d | None \<Rightarrow> split_pop (sep e) (raw_fs r)),
        fs_type = (case dev of Some d \<Rightarrow> raw_type r | None \<Rightarrow> ''SMB''),
        model = None,
        mountpoint = raw_mount r,
        mounted = True,
        protocol = (case dev of Some d \<Rightarrow> bd_protocol d | None \<Rightarrow> ''SMB''),
        serial = (case dev of
                    Some d \<Rightarrow> (if bd_serial d \<noteq> [] then Some (bd_serial d) else None)
                  | None \<Rightarrow> None),
        fs_size = \<lparr> available = raw_available r, total = raw_size r, used = raw_used r \<rparr>,
        uuid = (case dev of
                  Some d \<Rightarrow> toLowerCase e (bd_uuid d)
                | None \<Rightarrow> uuid_v5 e (raw_fs r) UUID_NAMESPACE) \<rparr>)"

definition getNewState ::
  "env \<Rightarrow> BlockDevicesData list \<Rightarrow> FsSizeData list \<Rightarrow> error + FileSystem list" where
  "getNewState e devices filesystems =
     (let deviceMap = deviceMap_of devices in
      if platform e = OtherPlatform \<and> filesystems \<noteq> [] then Inl TypeError
      else Inr (sortFilesystems e
                  (map (toFileSystem e deviceMap) (filter (keep_entry e deviceMap) filesystems))))"

text \<open>Stand-ins for the library functions, used only to evaluate concrete inputs.\<close>

definition ascii_upper :: "string \<Rightarrow> string" where
  "ascii_upper s =
     map (\<lambda>c. case map_of (zip ''abcdefghijklmnopqrstuvwxyz'' ''ABCDEFGHIJKLMNOPQRSTUVWXYZ'') c of
                Some d \<Rightarrow> d | None \<Rightarrow> c) s"

definition ascii_lower :: "string \<Rightarrow> string" where
  "ascii_lower s =
     map (\<lambda>c. case map_of (zip ''ABCDEFGHIJKLMNOPQRSTUVWXYZ'' ''abcdefghijklmnopqrstuvwxyz'') c of
                Some d \<Rightarrow> d | None \<Rightarrow> c) s"

fun compare_codes :: "nat list \<Rightarrow> nat list \<Rightarrow> int" where
  "compare_codes [] [] = 0"
| "compare_codes [] (y # ys) = -1"
| "compare_codes (x # xs) [] = 1"
| "compare_codes (x # xs) (y # ys) =
     (if x < y then -1 else if y < x then 1 else compare_codes xs ys)"

definition test_env :: env where
  "test_env =
     \<lparr> platform = Linux, sep = CHR ''/'',
       toUpperCase = ascii_upper, toLowerCase = ascii_lower,
       localeCompare = (\<lambda>a b. compare_codes (map of_char a) (map of_char b)),
       uuid_v5 = (\<lambda>name ns. ''v5('' @ ns @ '','' @ name @ '')'') \<rparr>"


section \<open>FolderDeletionWatcher.ts\<close>

text \<open>
  \<^verbatim>\<open>Path.dirname\<close> and \<^verbatim>\<open>Path.basename\<close> are Node library functions. A path is
  handled here as the list of its segments below the root: \<open>dirname\<close> drops the last
  segment, \<open>basename\<close> returns it, and the root (no segment) is its own parent, which is
  the only path with \<^verbatim>\<open>path===parentPath\<close>.
\<close>

primrec split_sep :: "char \<Rightarrow> string \<Rightarrow> string list" where
  "split_sep c [] = [[]]"
| "split_sep c (x # xs) =
     (if x = c then [] # split_sep c xs
      else (case split_sep c xs of [] \<Rightarrow> [[x]] | y # ys \<Rightarrow> (x # y) # ys))"

definition segments :: "string \<Rightarrow> string list" where
  "segments p = filter (\<lambda>s. s \<noteq> []) (split_sep (CHR ''/'') p)"

definition dirname :: "string list \<Rightarrow> string list" where
  "dirname p = butlast p"

definition basename :: "string list \<Rightarrow> string" where
  "basename p = (if p = [] then [] else last p)"

text \<open>
  One native watch (\<^verbatim>\<open>FS.watch( parentPath, ... )\<close>) with what its closure holds: the
  watched directory, the child name it looks for, the shared context it resolves, and the
  abort signal its \<^verbatim>\<open>cleanup\<close> is registered on (\<open>None\<close> when
  \<^verbatim>\<open>this.#abortController\<close> was undefined at that moment: then nothing closes it).
\<close>

record handle =
  h_dir :: "string list"
  h_name :: string
  h_ctx :: nat
  h_signal :: "nat option"

text \<open>
  The watcher: \<open>w_abortController\<close> is the identity of the current controller,
  \<open>w_fresh\<close> the next unused identity (controllers and shared contexts are objects
  created with \<^verbatim>\<open>new\<close>), \<open>w_handles\<close> the native watches that are open,
  \<open>w_resolved\<close> the shared contexts whose promise is resolved, and \<open>w_calls\<close>
  counts the invocations of \<^verbatim>\<open>#callback\<close>.
\<close>

record FolderDeletionWatcher =
  w_path :: string
  w_abortController :: "nat option"
  w_fresh :: nat
  w_handles :: "handle list"
  w_resolved :: "nat list"
  w_calls :: nat

definition stop_watcher :: "FolderDeletionWatcher \<Rightarrow> FolderDeletionWatcher" where
  "stop_watcher w =
     (case w_abortController w of
        None \<Rightarrow> w
      | Some c \<Rightarrow> w\<lparr> w_handles := filter (\<lambda>h. h_signal h \<noteq> Some c) (w_handles w),
                      w_abortController := None \<rparr>)"

text \<open>
  \<^verbatim>\<open>start()\<close> is asynchronous: \<open>start_begin\<close> is its part before
  \<^verbatim>\<open>await isDirectory\<close> (the flag tells whether the guard was passed), and
  \<open>start_resume\<close> the part after it, given the answer.
\<close>

definition start_begin :: "FolderDeletionWatcher \<Rightarrow> bool \<times> FolderDeletionWatcher" where
  "start_begin w =
     (if w_abortController w = None
      then (True, w\<lparr> w_abortController := Some (w_fresh w), w_fresh := Suc (w_fresh w) \<rparr>)
      else (False, w))"

function startParent ::
  "string list \<Rightarrow> nat option \<Rightarrow> FolderDeletionWatcher \<Rightarrow> FolderDeletionWatcher" where
  "startParent path sharedContext w =
     (if path = dirname path then w
      else
        let ctx = (case sharedContext of None \<Rightarrow> w_fresh w | Some c \<Rightarrow> c);
            w1 = (case sharedContext of None \<Rightarrow> w\<lparr> w_fresh := Suc (w_fresh w) \<rparr> | Some c \<Rightarrow> w);
            w2 = startParent (dirname path) (Some ctx) w1
        in w2\<lparr> w_handles := w_handles w2 @
                 [\<lparr> h_dir = dirname path, h_name = basename path, h_ctx = ctx,
                    h_signal = w_abortController w2 \<rparr>] \<rparr>)"
  by pat_completeness auto
termination
  apply (relation "measure (\<lambda>(path, c, w). length path)")
   apply simp
  apply (auto simp: dirname_def)
  subgoal for path by (cases path) auto
  done

definition start_resume :: "bool \<Rightarrow> FolderDeletionWatcher \<Rightarrow> FolderDeletionWatcher" where
  "start_resume isDir w =
     (if isDir then startParent (segments (w_path w)) None w else stop_watcher w)"

text \<open>The constructor: stores the fields and calls \<^verbatim>\<open>this.start()\<close>, which runs up to
  its first \<^verbatim>\<open>await\<close>.\<close>

definition new_FolderDeletionWatcher :: "string \<Rightarrow> FolderDeletionWatcher" where
  "new_FolderDeletionWatcher path =
     snd (start_begin \<lparr> w_path = path, w_abortController = None, w_fresh = 0,
                        w_handles = [], w_resolved = [], w_calls = 0 \<rparr>)"

text \<open>
  \<^verbatim>\<open>sharedContext.resolve()\<close>: a promise is resolved at most once; the reaction
  registered with \<^verbatim>\<open>.then\<close> runs on the first resolution: \<^verbatim>\<open>this.stop(); callback();\<close>
\<close>

definition resolve :: "nat \<Rightarrow> FolderDeletionWatcher \<Rightarrow> FolderDeletionWatcher" where
  "resolve ctx w =
     (if ctx \<in> set (w_resolved w) then w
      else let w1 = stop_watcher (w\<lparr> w_resolved := ctx # w_resolved w \<rparr>)
           in w1\<lparr> w_calls := Suc (w_calls w1) \<rparr>)"

text \<open>The listener of one native watch, called with \<^verbatim>\<open>( event, affectedFile )\<close>; a
  closed watch delivers nothing.\<close>

definition watch_event ::
  "handle \<times> string \<times> string \<Rightarrow> FolderDeletionWatcher \<Rightarrow> FolderDeletionWatcher" where
  "watch_event n w =
     (case n of (h, event, affectedFile) \<Rightarrow>
        if h \<in> set (w_handles w) \<and> event = ''rename'' \<and> affectedFile = h_name h
        then resolve (h_ctx h) w else w)"

definition watch_events ::
  "(handle \<times> string \<times> string) list \<Rightarrow> FolderDeletionWatcher \<Rightarrow> FolderDeletionWatcher" where
  "watch_events ns w = foldl (\<lambda>w n. watch_event n w) w ns"

text \<open>A notification that the watcher \<open>w\<close> listens for on one of its open watches.\<close>

definition reports_deletion :: "FolderDeletionWatcher \<Rightarrow> handle \<times> string \<times> string \<Rightarrow> bool" where
  "reports_deletion w n =
     (case n of (h, event, affectedFile) \<Rightarrow>
        h \<in> set (w_handles w) \<and> event = ''rename'' \<and> affectedFile = h_name h)"

text \<open>All open watches of \<open>w\<close> belong to the shared context \<open>c\<close>, which is not
  resolved, and the callback has not been invoked.\<close>

definition single_context :: "nat \<Rightarrow> FolderDeletionWatcher \<Rightarrow> bool" where
  "single_context c w \<longleftrightarrow>
     (\<forall>h\<in>set (w_handles w). h_ctx h = c) \<and> c \<notin> set (w_resolved w) \<and> w_calls w = 0"

section \<open>The class Mountie\<close>

datatype AbortController = AbortController

text \<open>
  The instance: its two private fields, whether the three internal handlers are
  registered (\<^verbatim>\<open>this.on( "mount", this.#onMount )\<close> ...), and the promises of
  \<^verbatim>\<open>nextRefresh\<close>: \<open>refreshOnce\<close> holds the ones waiting in
  \<^verbatim>\<open>this.once( "refresh", resolve )\<close>, \<open>resolvedPromises\<close> the resolved ones.
\<close>

record Mountie =
  abortController :: "AbortController option"
  filesystemMap :: "FileSystem obj"
  handlersOn :: bool
  refreshOnce :: "nat list"
  resolvedPromises :: "nat list"
  nextPromise :: nat

text \<open>The module: the instance and the module-level \<^verbatim>\<open>deletionWatchers\<close>.\<close>

record module =
  mountie :: Mountie
  deletionWatchers :: "FolderDeletionWatcher obj"

definition new_Mountie :: Mountie where
  "new_Mountie =
     \<lparr> abortController = None, filesystemMap = [], handlersOn = False,
       refreshOnce = [], resolvedPromises = [], nextPromise = 0 \<rparr>"

definition new_module :: module where
  "new_module = \<lparr> mountie = new_Mountie, deletionWatchers = [] \<rparr>"

definition running :: "Mountie \<Rightarrow> bool" where
  "running m \<longleftrightarrow> abortController m \<noteq> None"

definition state :: "env \<Rightarrow> Mountie \<Rightarrow> FileSystem list" where
  "state e m = sortFilesystems e (map snd (filesystemMap m))"

subsection \<open>One cycle of the monitor loop\<close>

text \<open>\<^verbatim>\<open>newState.reduce( ( R, fs ) => ( { ...R, [ fs.uuid ]: fs } ) , {} )\<close>\<close>

definition uuidFilesystemMap_of :: "FileSystem list \<Rightarrow> FileSystem obj" where
  "uuidFilesystemMap_of newState = foldl (\<lambda>R fs. AList.update (uuid fs) fs R) [] newState"

text \<open>
  The first pass, \<^verbatim>\<open>Promise.all( newState.map( async ( filesystem ) => ... ) )\<close>: every
  callback reads \<^verbatim>\<open>this.#filesystemMap[ path ]\<close> when it is called, then waits for
  \<^verbatim>\<open>isDirectory( path )\<close>, and pushes its event when that promise settles. The events
  are therefore pushed in the order in which the directory checks complete: \<open>completed\<close>
  is the entries of \<open>newState\<close> in that order (a permutation of \<open>newState\<close>).
\<close>

definition mount_pass ::
  "(string \<Rightarrow> bool) \<Rightarrow> FileSystem obj \<Rightarrow> FileSystem list \<Rightarrow> FileSystemEvent list" where
  "mount_pass isDirectory fsMap completed =
     concat (map (\<lambda>filesystem.
                    let path = mountpoint filesystem;
                        oldFilesystem = map_of fsMap path
                    in if isDirectory path \<and> oldFilesystem = None
                       then [Mount filesystem] else [])
                 completed)"

definition unmount_rename_pass ::
  "FileSystem obj \<Rightarrow> FileSystem list \<Rightarrow> FileSystemEvent list" where
  "unmount_rename_pass uuidFilesystemMap oldState =
     concat (map (\<lambda>oldFilesystem.
                    case map_of uuidFilesystemMap (uuid oldFilesystem) of
                      None \<Rightarrow> [Unmount oldFilesystem]
                    | Some filesystem \<Rightarrow>
                        if label filesystem \<noteq> label oldFilesystem
                        then [Rename filesystem oldFilesystem] else [])
                 oldState)"

text \<open>
  The second pass, the loop over \<^verbatim>\<open>this.state\<close>, and the event list of the cycle: the
  events of the first pass, then those of the second. The instance is the same in both
  passes: no other handler runs while the directory checks are pending.
\<close>

definition monitor_events ::
  "env \<Rightarrow> (string \<Rightarrow> bool) \<Rightarrow> Mountie \<Rightarrow> FileSystem list \<Rightarrow> FileSystem list
     \<Rightarrow> FileSystemEvent list" where
  "monitor_events e isDirectory m newState completed =
     mount_pass isDirectory (filesystemMap m) completed
     @ unmount_rename_pass (uuidFilesystemMap_of newState) (state e m)"

subsection \<open>The handlers\<close>

definition onMount :: "FileSystem \<Rightarrow> module \<Rightarrow> module" where
  "onMount f s =
     (let path = mountpoint f in
      s\<lparr> mountie := (mountie s)\<lparr> filesystemMap := AList.update path f (filesystemMap (mountie s)) \<rparr>,
         deletionWatchers := AList.update path (new_FolderDeletionWatcher path) (deletionWatchers s) \<rparr>)"

text \<open>\<^verbatim>\<open>deletionWatchers[ path ].stop()\<close> throws a TypeError when the registry has no
  watcher at \<open>path\<close>; the deletion from the map has happened by then.\<close>

definition onUnmount :: "FileSystem \<Rightarrow> module \<Rightarrow> error + module" where
  "onUnmount f s =
     (let path = mountpoint f;
          s1 = s\<lparr> mountie := (mountie s)\<lparr> filesystemMap := AList.delete path (filesystemMap (mountie s)) \<rparr> \<rparr>
      in case map_of (deletionWatchers s1) path of
           None \<Rightarrow> Inl TypeError
         | Some w \<Rightarrow> Inr (s1\<lparr> deletionWatchers := AList.delete path (deletionWatchers s1) \<rparr>))"

definition onRename :: "FileSystem \<Rightarrow> FileSystem \<Rightarrow> module \<Rightarrow> error + module" where
  "onRename f oldFilesystem s =
     (case (if mounted oldFilesystem then onUnmount oldFilesystem s else Inr s) of
        Inl err \<Rightarrow> Inl err
      | Inr s1 \<Rightarrow> Inr (if mounted f then onMount f s1 else s1))"

text \<open>\<^verbatim>\<open>this.emit( event.type, event )\<close>: the internal handler runs when it is
  registered.\<close>

fun emit :: "FileSystemEvent \<Rightarrow> module \<Rightarrow> error + module" where
  "emit (Mount f) s = (if handlersOn (mountie s) then Inr (onMount f s) else Inr s)"
| "emit (Rename f old) s = (if handlersOn (mountie s) then onRename f old s else Inr s)"
| "emit (Unmount f) s = (if handlersOn (mountie s) then onUnmount f s else Inr s)"

fun emit_all :: "FileSystemEvent list \<Rightarrow> module \<Rightarrow> error + module" where
  "emit_all [] s = Inr s"
| "emit_all (ev # evs) s = (case emit ev s of Inl err \<Rightarrow> Inl err | Inr s1 \<Rightarrow> emit_all evs s1)"

text \<open>\<^verbatim>\<open>this.emit( "refresh" )\<close> resolves the promises waiting in \<^verbatim>\<open>once\<close>.\<close>

definition emit_refresh :: "Mountie \<Rightarrow> Mountie" where
  "emit_refresh m = m\<lparr> resolvedPromises := resolvedPromises m @ refreshOnce m, refreshOnce := [] \<rparr>"

text \<open>The callback given to the watcher of \<open>path\<close> in \<^verbatim>\<open>#onMount\<close>.\<close>

definition watcher_callback :: "string \<Rightarrow> module \<Rightarrow> error + module" where
  "watcher_callback path s =
     (case map_of (filesystemMap (mountie s)) path of
        None \<Rightarrow> Inr s
      | Some f \<Rightarrow> emit (Unmount f) s)"

text \<open>One iteration of the loop of \<^verbatim>\<open>#monitor\<close>, from the return of
  \<^verbatim>\<open>getNewState\<close> to the emission of \<^verbatim>\<open>"refresh"\<close>.\<close>

definition monitor_cycle ::
  "env \<Rightarrow> (string \<Rightarrow> bool) \<Rightarrow> FileSystem list \<Rightarrow> FileSystem list \<Rightarrow> module \<Rightarrow> error + module" where
  "monitor_cycle e isDirectory newState completed s =
     (if running (mountie s)
      then (case emit_all (monitor_events e isDirectory (mountie s) newState completed) s of
              Inl err \<Rightarrow> Inl err
            | Inr s1 \<Rightarrow> Inr (s1\<lparr> mountie := emit_refresh (mountie s1) \<rparr>))
      else Inr s)"

subsection \<open>The delay between two cycles\<close>

text \<open>
  \<^verbatim>\<open>sleep( ms, signal )\<close> of Functions.ts: the promise resolves when the timer fires
  after \<open>ms\<close>, or when the signal aborts, \<open>abortAfter\<close> milliseconds after the call, if
  that is earlier. The result is the time the caller waits.
\<close>

definition sleep :: "int \<Rightarrow> int option \<Rightarrow> int" where
  "sleep ms abortAfter =
     (case abortAfter of None \<Rightarrow> ms | Some t \<Rightarrow> (if t < ms then t else ms))"

text \<open>Line 130 of Mountie.ts (\<open>INTERVAL_LENGTH\<close> is even, so the half is exact).\<close>

definition sleepDuration :: "int \<Rightarrow> int \<Rightarrow> int" where
  "sleepDuration startTime endTime =
     max (INTERVAL_LENGTH div 2) (INTERVAL_LENGTH - (endTime - startTime))"

text \<open>Lines 129 to 132: the delay the loop waits when it is still running.\<close>

definition monitor_delay :: "int \<Rightarrow> int \<Rightarrow> int option \<Rightarrow> int" where
  "monitor_delay startTime endTime abortAfter =
     (let d = sleepDuration startTime endTime
      in sleep INTERVAL_LENGTH abortAfter)"

subsection \<open>The public methods\<close>

definition filesystem :: "env \<Rightarrow> Mountie \<Rightarrow> string \<Rightarrow> FileSystem option" where
  "filesystem e m path =
     foldl (\<lambda>R fs.
              if mounted fs
                 \<and> (case R of None \<Rightarrow> True
                     | Some r \<Rightarrow> length (mountpoint fs) > length (mountpoint r))
                 \<and> prefix (mountpoint fs) path
              then Some fs else R)
           None (state e m)"

definition isMounted :: "env \<Rightarrow> Mountie \<Rightarrow> string \<Rightarrow> bool" where
  "isMounted e m path = list_ex (\<lambda>drive. mountpoint drive = path) (state e m)"

text \<open>\<^verbatim>\<open>nextRefresh\<close> returns the new promise and the instance with the listener
  registered, or the rejection.\<close>

definition nextRefresh :: "Mountie \<Rightarrow> error + (nat \<times> Mountie)" where
  "nextRefresh m =
     (if running m
      then Inr (nextPromise m,
                m\<lparr> refreshOnce := refreshOnce m @ [nextPromise m],
                   nextPromise := Suc (nextPromise m) \<rparr>)
      else Inl NotRunning)"

text \<open>\<^verbatim>\<open>start\<close>, up to the call of \<^verbatim>\<open>this.#monitor()\<close>; it returns
  \<^verbatim>\<open>this.nextRefresh()\<close> afterwards.\<close>

definition start :: "Mountie \<Rightarrow> Mountie" where
  "start m =
     (if running m = False
      then m\<lparr> handlersOn := True, abortController := Some AbortController, filesystemMap := [] \<rparr>
      else m)"

definition stop :: "Mountie \<Rightarrow> Mountie" where
  "stop m =
     (if running m then m\<lparr> handlersOn := False, abortController := None \<rparr> else m)"

subsection \<open>The asynchronous iterator\<close>

text \<open>
  The generator \<^verbatim>\<open>[Symbol.asyncIterator]\<close> is \<open>Fresh\<close> before its first
  \<^verbatim>\<open>next()\<close>; then it replays the list that \<^verbatim>\<open>this.state\<close> returned at that moment
  (\<open>Replay\<close> holds what is left); when the list is used up it creates the
  \<^verbatim>\<open>EventIterable( this, "all" )\<close>, which from then on queues the events emitted on
  \<^verbatim>\<open>"all"\<close> (\<open>Live\<close> holds the queue). \<open>waiting\<close> counts the \<^verbatim>\<open>next()\<close> calls
  that are not answered yet, and \<open>yielded\<close> is everything yielded so far.
\<close>

datatype phase = Fresh | Replay "FileSystem list" | Live "FileSystemEvent list"

record iterator =
  phase :: phase
  waiting :: nat
  yielded :: "FileSystemEvent list"

definition new_iterator :: iterator where
  "new_iterator = \<lparr> phase = Fresh, waiting = 0, yielded = [] \<rparr>"

datatype action = Next | Emit FileSystemEvent

text \<open>The generator reads the instance and never writes it: the instance is returned
  as it came.\<close>

fun iterator_next :: "env \<Rightarrow> Mountie \<times> iterator \<Rightarrow> Mountie \<times> iterator" where
  "iterator_next e (m, it) =
     (let remaining = (case phase it of Fresh \<Rightarrow> Some (state e m)
                       | Replay fss \<Rightarrow> Some fss
                       | Live q \<Rightarrow> None)
      in case remaining of
           Some (f # fss) \<Rightarrow> (m, it\<lparr> phase := Replay fss, yielded := yielded it @ [Mount f] \<rparr>)
         | Some [] \<Rightarrow> (m, it\<lparr> phase := Live [], waiting := Suc (waiting it) \<rparr>)
         | None \<Rightarrow>
             (case phase it of
                Live (ev # q) \<Rightarrow> (m, it\<lparr> phase := Live q, yielded := yielded it @ [ev] \<rparr>)
              | _ \<Rightarrow> (m, it\<lparr> waiting := Suc (waiting it) \<rparr>)))"

text \<open>An event emitted on \<^verbatim>\<open>"all"\<close>: it reaches the iterator only once the
  \<^verbatim>\<open>EventIterable\<close> exists.\<close>

fun iterator_emit :: "FileSystemEvent \<Rightarrow> iterator \<Rightarrow> iterator" where
  "iterator_emit ev it =
     (case phase it of
        Live q \<Rightarrow>
          (if waiting it > 0 \<and> q = []
           then it\<lparr> waiting := waiting it - 1, yielded := yielded it @ [ev] \<rparr>
           else it\<lparr> phase := Live (q @ [ev]) \<rparr>)
      | _ \<Rightarrow> it)"

fun iterator_step :: "env \<Rightarrow> Mountie \<times> iterator \<Rightarrow> action \<Rightarrow> Mountie \<times> iterator" where
  "iterator_step e (m, it) Next = iterator_next e (m, it)"
| "iterator_step e (m, it) (Emit ev) = (m, iterator_emit ev it)"

definition iterator_run :: "env \<Rightarrow> action list \<Rightarrow> Mountie \<times> iterator \<Rightarrow> Mountie \<times> iterator" where
  "iterator_run e acts mi = foldl (iterator_step e) mi acts"


text \<open>What the iterator has yielded, by phase, for the state \<open>st\<close> found at the first
  \<^verbatim>\<open>next()\<close>.\<close>

definition replay_inv :: "FileSystem list \<Rightarrow> iterator \<Rightarrow> bool" where
  "replay_inv st it \<longleftrightarrow>
     (case phase it of
        Fresh \<Rightarrow> yielded it = []
      | Replay r \<Rightarrow> (\<exists>k. yielded it = map Mount (take k st) \<and> r = drop k st)
      | Live q \<Rightarrow> (\<exists>live. yielded it = map Mount st @ live))"

subsection \<open>The life of one instance\<close>

text \<open>
  What happens to the module while one instance lives: \<^verbatim>\<open>start()\<close>, \<^verbatim>\<open>stop()\<close>, a
  cycle of the monitor loop (with the directory oracle, the snapshot and the order in which
  its directory checks completed), and the callback of a deletion watcher for a path.
  An exception thrown by a handler ends the run.
\<close>

datatype op =
    Start
  | Stop
  | Cycle "string \<Rightarrow> bool" "FileSystem list" "FileSystem list"
  | WatcherFires string

fun apply_op :: "env \<Rightarrow> op \<Rightarrow> module \<Rightarrow> error + module" where
  "apply_op e Start s = Inr (s\<lparr> mountie := start (mountie s) \<rparr>)"
| "apply_op e Stop s = Inr (s\<lparr> mountie := stop (mountie s) \<rparr>)"
| "apply_op e (Cycle isDirectory newState completed) s =
     monitor_cycle e isDirectory newState completed s"
| "apply_op e (WatcherFires path) s = watcher_callback path s"

fun run_ops :: "env \<Rightarrow> op list \<Rightarrow> module \<Rightarrow> error + module" where
  "run_ops e [] s = Inr s"
| "run_ops e (x # xs) s =
     (case apply_op e x s of Inl err \<Rightarrow> Inl err | Inr s1 \<Rightarrow> run_ops e xs s1)"

text \<open>The keys of the two maps.\<close>

definition map_keys :: "module \<Rightarrow> string set" where
  "map_keys s = fst ` set (filesystemMap (mountie s))"

definition registry_keys :: "module \<Rightarrow> string set" where
  "registry_keys s = fst ` set (deletionWatchers s)"

text \<open>Every entry of the map is stored under its own mountpoint (\<^verbatim>\<open>#onMount\<close> is the
  only writer), and an object has each key once.\<close>

definition wf_map :: "FileSystem obj \<Rightarrow> bool" where
  "wf_map fm \<longleftrightarrow> distinct (map fst fm) \<and> list_all (\<lambda>(k, v). mountpoint v = k) fm"

text \<open>The paths on which the handlers of an event list call \<^verbatim>\<open>#onUnmount\<close>.\<close>

fun unmount_target :: "FileSystemEvent \<Rightarrow> string list" where
  "unmount_target (Mount f) = []"
| "unmount_target (Rename f old) = (if mounted old then [mountpoint old] else [])"
| "unmount_target (Unmount f) = [mountpoint f]"

text \<open>The invariant of the module: the map is well formed and each of its keys has a
  watcher in the registry.\<close>

definition registered :: "module \<Rightarrow> bool" where
  "registered s \<longleftrightarrow> wf_map (filesystemMap (mountie s)) \<and> map_keys s \<subseteq> registry_keys s"

section \<open>Concrete inputs\<close>

definition test_fs :: "string \<Rightarrow> string \<Rightarrow> string \<Rightarrow> FileSystem" where
  "test_fs u l mp =
     \<lparr> device = ''/dev/sdb1'', label = l, fs_type = ''ext4'', model = None, mountpoint = mp,
       mounted = True, protocol = ''USB'', serial = None,
       fs_size = \<lparr> available = Num 1, total = Num 2, used = Num 1 \<rparr>, uuid = u \<rparr>"

definition fsA :: FileSystem where
  "fsA = test_fs ''aaaa'' ''DATA'' ''/mnt/a''"

definition fsA_moved :: FileSystem where
  "fsA_moved = test_fs ''aaaa'' ''DATA'' ''/mnt/b''"

definition fsA_renamed :: FileSystem where
  "fsA_renamed = test_fs ''aaaa'' ''PHOTOS'' ''/mnt/a''"

definition fsB :: FileSystem where
  "fsB = test_fs ''bbbb'' ''BACKUP'' ''/mnt/b''"

definition fs_a :: FileSystem where
  "fs_a = test_fs ''1111'' ''OUTER'' ''/a''"

definition fs_ab :: FileSystem where
  "fs_ab = test_fs ''2222'' ''INNER'' ''/a/b''"

text \<open>A running instance whose state holds \<open>fsA\<close>.\<close>

definition mountie_A :: Mountie where
  "mountie_A = (start new_Mountie)\<lparr> filesystemMap := [(''/mnt/a'', fsA)] \<rparr>"

definition mountie_a_ab :: Mountie where
  "mountie_a_ab = (start new_Mountie)\<lparr> filesystemMap := [(''/a'', fs_a), (''/a/b'', fs_ab)] \<rparr>"

text \<open>The two watches of a watcher of \<open>/a/b\<close>: on the root for \<open>a\<close>, on
  \<open>/a\<close> for \<open>b\<close>.\<close>

definition watch_a :: handle where
  "watch_a = \<lparr> h_dir = [], h_name = ''a'', h_ctx = 1, h_signal = Some 0 \<rparr>"

definition watch_b :: handle where
  "watch_b = \<lparr> h_dir = [''a''], h_name = ''b'', h_ctx = 1, h_signal = Some 0 \<rparr>"

text \<open>A block device that reports an empty UUID, and the filesystem on it.\<close>

definition dev_no_uuid :: BlockDevicesData where
  "dev_no_uuid =
     \<lparr> bd_name = ''/dev/sda1'', bd_label = ''DATA'', bd_protocol = ''USB'',
       bd_serial = [], bd_uuid = [] \<rparr>"

definition dev_uuid :: BlockDevicesData where
  "dev_uuid =
     \<lparr> bd_name = ''/dev/sda1'', bd_label = ''DATA'', bd_protocol = ''USB'',
       bd_serial = ''S1'', bd_uuid = ''AB-01'' \<rparr>"

definition raw_sda1 :: FsSizeData where
  "raw_sda1 =
     \<lparr> raw_fs = ''/dev/sda1'', raw_type = ''ext4'', raw_mount = ''/mnt/a'',
       raw_size = Num 100, raw_available = Num 60, raw_used = Num 40 \<rparr>"

section \<open>Sorting and the dictionaries\<close>

lemma set_insert_by: "set (insert_by c x xs) = insert x (set xs)"
  by (induction xs) auto

lemma set_sort_by: "set (sort_by c xs) = set xs"
  unfolding sort_by_def by (induction xs) (simp_all add: set_insert_by)

lemma mset_insert_by: "mset (insert_by c x xs) = add_mset x (mset xs)"
  by (induction xs) auto

lemma mset_sort_by: "mset (sort_by c xs) = mset xs"
  unfolding sort_by_def by (induction xs) (simp_all add: mset_insert_by)

lemma set_sortFilesystems: "set (sortFilesystems e xs) = set xs"
  by (simp add: sortFilesystems_def set_sort_by split: platform.splits)

lemma mset_sortFilesystems: "mset (sortFilesystems e xs) = mset xs"
  by (simp add: sortFilesystems_def mset_sort_by split: platform.splits)

lemma find_append_case:
  "List.find P (xs @ ys) = (case List.find P xs of None \<Rightarrow> List.find P ys | Some x \<Rightarrow> Some x)"
  by (induction xs) auto

text \<open>A dictionary built by \<^verbatim>\<open>reduce\<close> with a spread holds, for each key, the last
  element that has it.\<close>

lemma map_of_foldl_update:
  "map_of (foldl (\<lambda>R x. AList.update (k x) x R) acc xs) key =
     (case List.find (\<lambda>x. k x = key) (rev xs) of Some x \<Rightarrow> Some x | None \<Rightarrow> map_of acc key)"
  by (induction xs arbitrary: acc)
     (auto simp: AList.update_conv' find_append_case split: option.splits)

lemma map_of_deviceMap_of:
  "map_of (deviceMap_of devices) k = List.find (\<lambda>d. bd_name d = k) (rev devices)"
  by (simp add: deviceMap_of_def map_of_foldl_update split: option.splits)

lemma map_of_uuidFilesystemMap_of:
  "map_of (uuidFilesystemMap_of newState) u = List.find (\<lambda>f. uuid f = u) (rev newState)"
  by (simp add: uuidFilesystemMap_of_def map_of_foldl_update split: option.splits)

lemmas cycle_defs =
  monitor_events_def mount_pass_def unmount_rename_pass_def uuidFilesystemMap_of_def
  state_def sortFilesystems_def SORT_def sort_by_def compare_default_def Let_def
  start_def new_Mountie_def running_def test_env_def test_fs_def ascii_upper_def

section \<open>The snapshot: getNewState\<close>

lemma uuid_toFileSystem:
  "uuid (toFileSystem e dm r) =
     (case map_of dm (raw_fs r) of
        Some d \<Rightarrow> toLowerCase e (bd_uuid d)
      | None \<Rightarrow> uuid_v5 e (raw_fs r) UUID_NAMESPACE)"
  by (simp add: toFileSystem_def Let_def)

text \<open>
  Claim C2, as the code has it. The snapshot consists of the entries built from the raw
  entries that pass the three filters, and the uuid of the entry built from a raw entry
  \<open>r\<close> is decided by whether the block-device list has a device named like the device
  identifier of \<open>r\<close> (the last such device counts), not by whether a UUID is reported
  and non-empty: when there is such a device the uuid is that device's UUID lower-cased,
  also when that UUID is the empty string; when there is none it is the version-5 UUID of
  the device identifier under \<open>UUID_NAMESPACE\<close>.
\<close>

theorem getNewState_uuid:
  assumes "getNewState e devices filesystems = Inr snapshot"
  shows "set snapshot = toFileSystem e (deviceMap_of devices) `
            {r \<in> set filesystems. keep_entry e (deviceMap_of devices) r}
         \<and> (\<forall>r. uuid (toFileSystem e (deviceMap_of devices) r) =
               (case List.find (\<lambda>d. bd_name d = raw_fs r) (rev devices) of
                  Some d \<Rightarrow> toLowerCase e (bd_uuid d)
                | None \<Rightarrow> uuid_v5 e (raw_fs r) UUID_NAMESPACE))"
  using assms
  by (auto simp: getNewState_def Let_def set_sortFilesystems uuid_toFileSystem
        map_of_deviceMap_of split: if_splits)

lemmas snapshot_defs =
  getNewState_def deviceMap_of_def keep_entry_def IGNORED_MOUNT_POINTS_REGEX_def
  sortFilesystems_def SORT_def sort_by_def toFileSystem_def test_env_def ascii_lower_def
  raw_sda1_def Let_def

lemma getNewState_dev_uuid:
  "getNewState test_env [dev_uuid] [raw_sda1] =
     Inr [toFileSystem test_env [(''/dev/sda1'', dev_uuid)] raw_sda1]"
  by (simp add: snapshot_defs dev_uuid_def)

theorem getNewState_uuid_witness:
  "uuid (toFileSystem test_env (deviceMap_of [dev_uuid]) raw_sda1) = ''ab-01''"
proof -
  have "uuid (toFileSystem test_env (deviceMap_of [dev_uuid]) raw_sda1) =
          (case List.find (\<lambda>d. bd_name d = raw_fs raw_sda1) (rev [dev_uuid]) of
             Some d \<Rightarrow> toLowerCase test_env (bd_uuid d)
           | None \<Rightarrow> uuid_v5 test_env (raw_fs raw_sda1) UUID_NAMESPACE)"
    using getNewState_uuid [OF getNewState_dev_uuid] by blast
  also have "\<dots> = ''ab-01''"
    by (simp add: dev_uuid_def raw_sda1_def test_env_def ascii_lower_def)
  finally show ?thesis .
qed

text \<open>
  Claim C2 as stated fails: the block device \<open>/dev/sda1\<close> is listed with an empty
  UUID, so no non-empty native UUID is reported and the claim asks for the version-5 UUID
  of the device identifier; the entry of the snapshot has the empty string as uuid.
\<close>

theorem getNewState_empty_uuid_counterexample:
  "getNewState test_env [dev_no_uuid] [raw_sda1] =
     Inr [toFileSystem test_env [(''/dev/sda1'', dev_no_uuid)] raw_sda1]
   \<and> bd_uuid dev_no_uuid = []
   \<and> uuid (toFileSystem test_env [(''/dev/sda1'', dev_no_uuid)] raw_sda1) = []
   \<and> uuid (toFileSystem test_env [(''/dev/sda1'', dev_no_uuid)] raw_sda1)
       \<noteq> uuid_v5 test_env (raw_fs raw_sda1) UUID_NAMESPACE"
  by (simp add: snapshot_defs dev_no_uuid_def)

section \<open>One cycle of the differ\<close>

lemma Mount_in_mount_pass:
  "Mount f \<in> set (mount_pass isDirectory fsMap completed) \<longleftrightarrow>
     f \<in> set completed \<and> isDirectory (mountpoint f) \<and> map_of fsMap (mountpoint f) = None"
  by (induction completed) (auto simp: mount_pass_def Let_def)

lemma not_mount_unmount_rename_pass:
  "ev \<in> set (unmount_rename_pass u olds) \<Longrightarrow> \<not> is_mount ev"
  by (induction olds) (auto simp: unmount_rename_pass_def split: option.splits if_splits)

lemma is_mount_mount_pass:
  "ev \<in> set (mount_pass isDirectory fsMap completed) \<Longrightarrow> is_mount ev"
  by (induction completed) (auto simp: mount_pass_def Let_def split: if_splits)

text \<open>
  Claim C1, as the code has it. For every entry of the new snapshot whose mountpoint
  directory exists, the cycle emits a Mount event for it if and only if the filesystem map
  of the instance has no entry under the mountpoint of that entry: the first pass looks
  the old state up by mountpoint, not by uuid.
\<close>

theorem mount_event_iff_mountpoint_free:
  assumes "mset completed = mset newState"
    and "f \<in> set newState"
    and "isDirectory (mountpoint f)"
  shows "Mount f \<in> set (monitor_events e isDirectory m newState completed)
         \<longleftrightarrow> map_of (filesystemMap m) (mountpoint f) = None"
proof -
  have "set completed = set newState"
    using assms(1) by (rule mset_eq_setD)
  moreover have "Mount f \<notin> set (unmount_rename_pass u olds)" for u olds
    using not_mount_unmount_rename_pass by fastforce
  ultimately show ?thesis
    using assms(2,3) by (simp add: monitor_events_def Mount_in_mount_pass)
qed

theorem mount_event_iff_mountpoint_free_witness:
  "Mount fsB \<in> set (monitor_events test_env (\<lambda>p. True) mountie_A [fsB] [fsB])
   \<and> Mount fsA \<notin> set (monitor_events test_env (\<lambda>p. True) mountie_A [fsA] [fsA])"
proof -
  have free: "map_of (filesystemMap mountie_A) (mountpoint fsB) = None"
    by (simp add: mountie_A_def fsB_def test_fs_def)
  have taken: "map_of (filesystemMap mountie_A) (mountpoint fsA) \<noteq> None"
    by (simp add: mountie_A_def fsA_def test_fs_def)
  show ?thesis
    using mount_event_iff_mountpoint_free
            [of "[fsB]" "[fsB]" fsB "\<lambda>p. True" test_env mountie_A]
          mount_event_iff_mountpoint_free
            [of "[fsA]" "[fsA]" fsA "\<lambda>p. True" test_env mountie_A]
          free taken
    by simp
qed

text \<open>
  Claim C1 as stated fails: the state holds \<open>fsA\<close> at \<open>/mnt/a\<close>, and the new snapshot
  has the same uuid at \<open>/mnt/b\<close>, a directory that exists. The uuid has a match among
  the old-state entries, and a Mount event is emitted all the same.
\<close>

theorem mount_event_uuid_counterexample:
  "\<not> (Mount fsA_moved
         \<in> set (monitor_events test_env (\<lambda>p. True) mountie_A [fsA_moved] [fsA_moved])
       \<longleftrightarrow> uuid fsA_moved \<notin> uuid ` set (state test_env mountie_A))"
  by (simp add: cycle_defs mountie_A_def fsA_def fsA_moved_def)

lemma mount_pass_filesystems:
  "map event_filesystem (mount_pass isDirectory fsMap completed) =
     filter (\<lambda>f. isDirectory (mountpoint f) \<and> map_of fsMap (mountpoint f) = None) completed"
  by (induction completed) (auto simp: mount_pass_def Let_def)

lemma unmount_rename_pass_olds:
  "map event_old (unmount_rename_pass u olds) =
     map Some (filter (\<lambda>old. case map_of u (uuid old) of
                                None \<Rightarrow> True
                              | Some f \<Rightarrow> label f \<noteq> label old) olds)"
  by (induction olds) (auto simp: unmount_rename_pass_def split: option.splits)

lemma filter_mounts_append:
  assumes "\<forall>ev\<in>set ms. is_mount ev" and "\<forall>ev\<in>set us. \<not> is_mount ev"
  shows "filter is_mount (ms @ us) = ms"
    and "filter (\<lambda>ev. \<not> is_mount ev) (ms @ us) = us"
  using assms by (simp_all add: filter_id_conv filter_empty_conv)

text \<open>
  Claim C6, as the code has it. The event list of one cycle is its Mount events followed
  by its Unmount and Rename events. The Unmount and Rename events follow the order of the
  (sorted) state. The Mount events follow the order in which the directory checks of the
  snapshot's entries complete, \<open>completed\<close>; that is the order of the snapshot when the
  checks complete in the snapshot's order.
\<close>

theorem monitor_events_order:
  "monitor_events e isDirectory m newState completed =
     filter is_mount (monitor_events e isDirectory m newState completed)
     @ filter (\<lambda>ev. \<not> is_mount ev) (monitor_events e isDirectory m newState completed)
   \<and> subseq (map event_filesystem
               (filter is_mount (monitor_events e isDirectory m newState completed)))
        completed
   \<and> subseq (map event_old
               (filter (\<lambda>ev. \<not> is_mount ev)
                  (monitor_events e isDirectory m newState completed)))
        (map Some (state e m))
   \<and> (completed = newState \<longrightarrow>
        subseq (map event_filesystem
                  (filter is_mount (monitor_events e isDirectory m newState completed)))
           newState)"
proof -
  let ?ms = "mount_pass isDirectory (filesystemMap m) completed"
  let ?us = "unmount_rename_pass (uuidFilesystemMap_of newState) (state e m)"
  have evs: "monitor_events e isDirectory m newState completed = ?ms @ ?us"
    by (simp add: monitor_events_def)
  have ms: "\<forall>ev\<in>set ?ms. is_mount ev"
    using is_mount_mount_pass by blast
  have us: "\<forall>ev\<in>set ?us. \<not> is_mount ev"
    using not_mount_unmount_rename_pass by blast
  have f1: "filter is_mount (?ms @ ?us) = ?ms"
    and f2: "filter (\<lambda>ev. \<not> is_mount ev) (?ms @ ?us) = ?us"
    using filter_mounts_append [OF ms us] by blast+
  have s1: "subseq (map event_filesystem ?ms) completed"
    by (simp add: mount_pass_filesystems)
  have s2: "subseq (map event_old ?us) (map Some (state e m))"
    by (simp add: unmount_rename_pass_olds subseq_map)
  show ?thesis
    unfolding evs f1 f2 using s1 s2 by blast
qed

theorem monitor_events_order_witness:
  "monitor_events test_env (\<lambda>p. True) mountie_A [fsB] [fsB] = [Mount fsB, Unmount fsA]
   \<and> subseq (map event_filesystem
               (filter is_mount (monitor_events test_env (\<lambda>p. True) mountie_A [fsB] [fsB])))
        [fsB]"
  using monitor_events_order [of test_env "\<lambda>p. True" mountie_A "[fsB]" "[fsB]"]
  by (simp add: cycle_defs mountie_A_def fsA_def fsB_def)

text \<open>
  Claim C6 as stated fails in its second part: the snapshot \<open>[fsA, fsB]\<close> is in its
  sorted order, the directory check of \<open>fsB\<close> completes before that of \<open>fsA\<close>, and the
  Mount events come out as \<open>fsB\<close>, \<open>fsA\<close>, against the order of the snapshot.
\<close>

theorem monitor_events_order_counterexample:
  "sortFilesystems test_env [fsA, fsB] = [fsA, fsB]
   \<and> monitor_events test_env (\<lambda>p. True) (start new_Mountie) [fsA, fsB] [fsB, fsA]
       = [Mount fsB, Mount fsA]
   \<and> map event_filesystem
       (monitor_events test_env (\<lambda>p. True) (start new_Mountie) [fsA, fsB] [fsB, fsA])
       \<noteq> [fsA, fsB]"
  by (simp add: cycle_defs fsA_def fsB_def)

lemma wf_map_mountpoints: "wf_map fm \<Longrightarrow> map mountpoint (map snd fm) = map fst fm"
  by (induction fm) (auto simp: wf_map_def)

lemma wf_map_distinct_mountpoints:
  "wf_map fm \<Longrightarrow> distinct (map mountpoint (map snd fm))"
  using wf_map_mountpoints [of fm] by (simp add: wf_map_def del: map_map)

lemma distinct_mountpoints_state:
  assumes "wf_map (filesystemMap m)"
  shows "distinct (map mountpoint (state e m))"
proof -
  have "mset (map mountpoint (state e m)) = mset (map mountpoint (map snd (filesystemMap m)))"
    by (simp add: state_def mset_sortFilesystems del: map_map)
  then show ?thesis
    using wf_map_distinct_mountpoints [OF assms] mset_eq_imp_distinct_iff by blast
qed

lemma distinct_state: "wf_map (filesystemMap m) \<Longrightarrow> distinct (state e m)"
  using distinct_mountpoints_state distinct_map by blast

lemma event_old_mount_pass:
  "filter (\<lambda>ev. event_old ev = Some old) (mount_pass isDirectory fsMap completed) = []"
  by (induction completed) (auto simp: mount_pass_def Let_def)

lemma filter_unmount_rename_pass_notin:
  "old \<notin> set olds \<Longrightarrow>
   filter (\<lambda>ev. event_old ev = Some old) (unmount_rename_pass u olds) = []"
  by (induction olds) (auto simp: unmount_rename_pass_def split: option.splits)

lemma filter_unmount_rename_pass:
  "distinct olds \<Longrightarrow> old \<in> set olds \<Longrightarrow>
   filter (\<lambda>ev. event_old ev = Some old) (unmount_rename_pass u olds) =
     (case map_of u (uuid old) of
        None \<Rightarrow> [Unmount old]
      | Some f \<Rightarrow> if label f \<noteq> label old then [Rename f old] else [])"
proof (induction olds)
  case Nil
  then show ?case by simp
next
  case (Cons a olds)
  have split:
    "unmount_rename_pass u (a # olds) = unmount_rename_pass u [a] @ unmount_rename_pass u olds"
    by (simp add: unmount_rename_pass_def)
  show ?case
  proof (cases "a = old")
    case True
    with Cons.prems have "old \<notin> set olds" by simp
    then have "filter (\<lambda>ev. event_old ev = Some old) (unmount_rename_pass u olds) = []"
      by (rule filter_unmount_rename_pass_notin)
    moreover have "filter (\<lambda>ev. event_old ev = Some old) (unmount_rename_pass u [a]) =
       (case map_of u (uuid old) of
          None \<Rightarrow> [Unmount old]
        | Some f \<Rightarrow> if label f \<noteq> label old then [Rename f old] else [])"
      using True by (simp add: unmount_rename_pass_def split: option.splits)
    ultimately show ?thesis by (simp add: split)
  next
    case False
    with Cons have "filter (\<lambda>ev. event_old ev = Some old) (unmount_rename_pass u olds) =
       (case map_of u (uuid old) of
          None \<Rightarrow> [Unmount old]
        | Some f \<Rightarrow> if label f \<noteq> label old then [Rename f old] else [])"
      by simp
    moreover have "filter (\<lambda>ev. event_old ev = Some old) (unmount_rename_pass u [a]) = []"
      using False by (simp add: filter_unmount_rename_pass_notin)
    ultimately show ?thesis by (simp add: split)
  qed
qed

text \<open>
  Claim C7, as the code has it. For every old-state entry whose uuid is present in the new
  snapshot, the events of the cycle that are produced for that old entry (its Unmount, or a
  Rename carrying it as old filesystem) are exactly one Rename(new entry, old entry) when
  the labels differ and none when the labels are equal, whatever other field differs. The
  Mount events of the first pass are not among them: a Mount for the new entry is emitted
  besides whenever its mountpoint is not a key of the filesystem map and its directory
  exists.
\<close>

theorem rename_iff_label_differs:
  assumes "wf_map (filesystemMap m)"
    and "old \<in> set (state e m)"
    and "map_of (uuidFilesystemMap_of newState) (uuid old) = Some f"
  shows "filter (\<lambda>ev. event_old ev = Some old)
           (monitor_events e isDirectory m newState completed)
         = (if label f \<noteq> label old then [Rename f old] else [])"
  using assms distinct_state [OF assms(1), of e]
  by (simp add: monitor_events_def event_old_mount_pass filter_unmount_rename_pass)

theorem rename_iff_label_differs_witness:
  "filter (\<lambda>ev. event_old ev = Some fsA)
     (monitor_events test_env (\<lambda>p. True) mountie_A [fsA_renamed] [fsA_renamed])
   = [Rename fsA_renamed fsA]"
proof -
  have wf: "wf_map (filesystemMap mountie_A)"
    by (simp add: wf_map_def mountie_A_def fsA_def test_fs_def)
  have old: "fsA \<in> set (state test_env mountie_A)"
    by (simp add: cycle_defs mountie_A_def)
  have new: "map_of (uuidFilesystemMap_of [fsA_renamed]) (uuid fsA) = Some fsA_renamed"
    by (simp add: uuidFilesystemMap_of_def fsA_def fsA_renamed_def test_fs_def)
  have "label fsA_renamed \<noteq> label fsA"
    by (simp add: fsA_def fsA_renamed_def test_fs_def)
  then show ?thesis
    using rename_iff_label_differs [OF wf old new, of "\<lambda>p. True" "[fsA_renamed]"] by simp
qed

text \<open>
  Claim C7 as stated fails: the old entry \<open>fsA\<close> and the new entry have the same uuid
  and the same label and differ in the mountpoint only; the cycle emits an event, the Mount
  of the new entry.
\<close>

theorem no_event_when_label_equal_counterexample:
  "fsA \<in> set (state test_env mountie_A)
   \<and> map_of (uuidFilesystemMap_of [fsA_moved]) (uuid fsA) = Some fsA_moved
   \<and> label fsA_moved = label fsA
   \<and> monitor_events test_env (\<lambda>p. True) mountie_A [fsA_moved] [fsA_moved] = [Mount fsA_moved]"
  by (simp add: cycle_defs mountie_A_def fsA_def fsA_moved_def)

section \<open>The delay between two cycles\<close>

lemma monitor_delay_constant: "monitor_delay startTime endTime None = INTERVAL_LENGTH"
  by (simp add: monitor_delay_def sleep_def)

text \<open>
  Claim C5 compared with the code: when the cycle took 3000 ms, the loop computes the delay
  of the claim, \<open>max (interval/2) (interval - elapsed) = 7000\<close>, and then waits for the
  whole interval, 10000 ms, because \<^verbatim>\<open>sleep\<close> is called with \<open>INTERVAL_LENGTH\<close> and
  not with the computed value. The delay does end at once when \<^verbatim>\<open>stop()\<close> aborts the
  signal (here after 1 ms).
\<close>

theorem monitor_delay_ignores_elapsed:
  "sleepDuration 0 3000 = 7000
   \<and> monitor_delay 0 3000 None = 10000
   \<and> monitor_delay 0 3000 (Some 1) = 1"
  by (simp add: monitor_delay_def sleep_def sleepDuration_def INTERVAL_LENGTH_def)

section \<open>The public methods\<close>

lemma foldl_longest_prefix:
  "case foldl (\<lambda>R fs. if mounted fs
                         \<and> (case R of None \<Rightarrow> True
                             | Some r \<Rightarrow> length (mountpoint fs) > length (mountpoint r))
                         \<and> prefix (mountpoint fs) path
                      then Some fs else R) None xs of
     None \<Rightarrow> \<forall>fs\<in>set xs. \<not> (mounted fs \<and> prefix (mountpoint fs) path)
   | Some r \<Rightarrow> r \<in> set xs \<and> mounted r \<and> prefix (mountpoint r) path
        \<and> (\<forall>fs\<in>set xs. mounted fs \<and> prefix (mountpoint fs) path
               \<longrightarrow> length (mountpoint fs) \<le> length (mountpoint r))"
proof (induction xs rule: rev_induct)
  case Nil
  then show ?case by simp
next
  case (snoc x xs)
  then show ?case
    by (auto split: option.splits)
qed

text \<open>
  Claim C8. For every path and every state, \<open>filesystem\<close> returns a mounted entry of
  the state whose mountpoint is a prefix of the path and at least as long as the mountpoint
  of every mounted entry whose mountpoint is a prefix of the path, and it returns none
  exactly when no mounted entry's mountpoint is a prefix of the path. (Two prefixes of one
  path that have the same length are equal, so the longest prefix is one mountpoint.)
\<close>

theorem filesystem_longest_prefix:
  "(case filesystem e m path of
      None \<Rightarrow> \<forall>fs\<in>set (state e m). \<not> (mounted fs \<and> prefix (mountpoint fs) path)
    | Some r \<Rightarrow> r \<in> set (state e m) \<and> mounted r \<and> prefix (mountpoint r) path
         \<and> (\<forall>fs\<in>set (state e m). mounted fs \<and> prefix (mountpoint fs) path
                \<longrightarrow> length (mountpoint fs) \<le> length (mountpoint r)))"
  unfolding filesystem_def by (rule foldl_longest_prefix)

text \<open>With entries mounted at \<open>/a\<close> and \<open>/a/b\<close>, the path \<open>/a/b/c\<close> gives the
  entry of \<open>/a/b\<close>.\<close>

theorem filesystem_longest_prefix_witness:
  "filesystem test_env mountie_a_ab ''/a/b/c'' = Some fs_ab
   \<and> fs_a \<in> set (state test_env mountie_a_ab)
   \<and> prefix (mountpoint fs_a) ''/a/b/c''
   \<and> length (mountpoint fs_a) \<le> length (mountpoint fs_ab)"
  using filesystem_longest_prefix [of test_env mountie_a_ab "''/a/b/c''"]
  by (simp add: filesystem_def cycle_defs mountie_a_ab_def fs_a_def fs_ab_def)

text \<open>
  Claim C9. \<open>nextRefresh\<close> rejects with the not-running error if and only if the
  instance is stopped. On a running instance it returns a promise that is pending (it waits
  in the once-listeners of \<open>refresh\<close>) and is resolved by the next emission of
  \<open>refresh\<close>; the call changes neither the filesystem map nor the abort controller nor
  the registration of the handlers, and resolves no promise itself.
\<close>

theorem nextRefresh_rejects_iff_stopped:
  "(nextRefresh m = Inl NotRunning \<longleftrightarrow> \<not> running m)
   \<and> (isl (nextRefresh m) \<longleftrightarrow> \<not> running m)
   \<and> (running m \<longrightarrow>
        (\<exists>p m'. nextRefresh m = Inr (p, m')
           \<and> filesystemMap m' = filesystemMap m
           \<and> abortController m' = abortController m
           \<and> handlersOn m' = handlersOn m
           \<and> resolvedPromises m' = resolvedPromises m
           \<and> p \<in> set (refreshOnce m')
           \<and> p \<in> set (resolvedPromises (emit_refresh m'))))"
  by (auto simp: nextRefresh_def emit_refresh_def)

theorem nextRefresh_rejects_iff_stopped_witness:
  "nextRefresh new_Mountie = Inl NotRunning
   \<and> running (start new_Mountie)
   \<and> \<not> isl (nextRefresh (start new_Mountie))"
  using nextRefresh_rejects_iff_stopped [of new_Mountie]
        nextRefresh_rejects_iff_stopped [of "start new_Mountie"]
  by (simp add: running_def start_def new_Mountie_def)

section \<open>The asynchronous iterator\<close>

lemma fst_iterator_step: "fst (iterator_step e (m, it) a) = m"
  by (cases a) (auto simp: Let_def split: phase.splits list.splits option.splits)

lemma fst_iterator_run: "fst (iterator_run e acts (m, it)) = m"
  unfolding iterator_run_def
proof (induction acts arbitrary: it)
  case Nil
  then show ?case by simp
next
  case (Cons a acts)
  obtain it' where "iterator_step e (m, it) a = (m, it')"
    using fst_iterator_step [of e m it a] by (cases "iterator_step e (m, it) a") auto
  then show ?case using Cons by simp
qed

lemma drop_Cons_take:
  assumes "drop k st = f # fss"
  shows "take (Suc k) st = take k st @ [f]" and "drop (Suc k) st = fss"
proof -
  have "k < length st" using assms by (cases "k < length st") auto
  moreover have "st ! k = f" using assms by (metis calculation hd_drop_conv_nth list.sel(1))
  ultimately show "take (Suc k) st = take k st @ [f]" by (simp add: take_Suc_conv_app_nth)
  show "drop (Suc k) st = fss" using assms by (metis drop_Suc list.sel(3) tl_drop)
qed

lemma replay_inv_next:
  assumes "replay_inv (state e m) it"
  shows "replay_inv (state e m) (snd (iterator_next e (m, it)))"
proof (cases "phase it")
  case Fresh
  then have y: "yielded it = []" using assms by (simp add: replay_inv_def)
  show ?thesis
  proof (cases "state e m")
    case Nil
    then show ?thesis using Fresh y by (simp add: replay_inv_def)
  next
    case (Cons f fss)
    then show ?thesis using Fresh y
      by (auto simp: replay_inv_def intro!: exI[of _ "Suc 0"])
  qed
next
  case (Replay r)
  then obtain k where k: "yielded it = map Mount (take k (state e m))" "r = drop k (state e m)"
    using assms by (auto simp: replay_inv_def)
  show ?thesis
  proof (cases r)
    case Nil
    then have "take k (state e m) = state e m" using k by simp
    then show ?thesis using Replay Nil k by (simp add: replay_inv_def)
  next
    case (Cons f fss)
    then have d: "drop k (state e m) = f # fss" using k by simp
    show ?thesis using Replay Cons k drop_Cons_take[OF d]
      by (auto simp: replay_inv_def intro!: exI[of _ "Suc k"])
  qed
next
  case (Live q)
  then show ?thesis using assms
    by (cases q) (auto simp: replay_inv_def)
qed

lemma replay_inv_emit:
  assumes "replay_inv st it"
  shows "replay_inv st (iterator_emit ev it)"
  using assms by (cases "phase it") (auto simp: replay_inv_def)

lemma replay_inv_run:
  "replay_inv (state e m) (snd (iterator_run e acts (m, new_iterator)))"
proof (induction acts rule: rev_induct)
  case Nil
  then show ?case by (simp add: iterator_run_def replay_inv_def new_iterator_def)
next
  case (snoc a acts)
  obtain it where it: "iterator_run e acts (m, new_iterator) = (m, it)"
    using fst_iterator_run[of e acts m new_iterator]
    by (cases "iterator_run e acts (m, new_iterator)") auto
  have run: "iterator_run e (acts @ [a]) (m, new_iterator) = iterator_step e (m, it) a"
    using it by (simp add: iterator_run_def)
  show ?case
    using snoc it replay_inv_next[of e m it] replay_inv_emit[of "state e m" it]
    unfolding run by (cases a) (simp_all del: iterator_next.simps iterator_emit.simps)
qed

text \<open>What the generator does yield: the Mount events of the state found at the first
  \<^verbatim>\<open>next()\<close>, in the order of the state, and live events only after all of them.\<close>

lemma replay_before_live:
  "\<exists>k live. yielded (snd (iterator_run e acts (m, new_iterator)))
              = map Mount (take k (state e m)) @ live
           \<and> (live \<noteq> [] \<longrightarrow> length (state e m) \<le> k)"
proof -
  let ?it = "snd (iterator_run e acts (m, new_iterator))"
  have inv: "replay_inv (state e m) ?it" by (rule replay_inv_run)
  show ?thesis
  proof (cases "phase ?it")
    case Fresh
    then show ?thesis using inv by (auto simp: replay_inv_def intro!: exI[of _ 0])
  next
    case (Replay r)
    then obtain k where "yielded ?it = map Mount (take k (state e m))"
      using inv by (auto simp: replay_inv_def)
    then show ?thesis by (intro exI[of _ k] exI[of _ "[]"]) simp
  next
    case (Live q)
    then obtain live where "yielded ?it = map Mount (state e m) @ live"
      using inv by (auto simp: replay_inv_def)
    then show ?thesis by (intro exI[of _ "length (state e m)"] exI[of _ live]) simp
  qed
qed

text \<open>
  Claim C3 compared with the code: consuming the stream of an instance that was never
  started leaves it stopped, whatever the consumer and the emitter do afterwards; the first
  \<^verbatim>\<open>next()\<close> finds an empty state, yields nothing and waits for an event on
  \<^verbatim>\<open>"all"\<close>, which a stopped monitor never emits.
\<close>

theorem asyncIterator_does_not_start:
  "\<not> running (fst (iterator_run e acts (new_Mountie, new_iterator)))
   \<and> iterator_run e [Next] (new_Mountie, new_iterator)
       = (new_Mountie, \<lparr> phase = Live [], waiting = 1, yielded = [] \<rparr>)"
  by (simp add: fst_iterator_run)
     (simp add: iterator_run_def new_Mountie_def new_iterator_def running_def state_def
        sortFilesystems_def SORT_def sort_by_def split: platform.splits)

section \<open>The folder deletion watcher\<close>

lemma stop_watcher_fields:
  "w_resolved (stop_watcher w) = w_resolved w"
  "w_calls (stop_watcher w) = w_calls w"
  "set (w_handles (stop_watcher w)) \<subseteq> set (w_handles w)"
  by (auto simp: stop_watcher_def split: option.splits)

lemma startParent_fields:
  "w_resolved (startParent path sc w) = w_resolved w
   \<and> w_calls (startParent path sc w) = w_calls w
   \<and> w_abortController (startParent path sc w) = w_abortController w
   \<and> (\<exists>hs. w_handles (startParent path sc w) = w_handles w @ hs
         \<and> (\<forall>h\<in>set hs. h_ctx h = (case sc of None \<Rightarrow> w_fresh w | Some c \<Rightarrow> c)))"
proof (induction path sc w rule: startParent.induct)
  case (1 path sharedContext w)
  show ?case
  proof (cases "path = dirname path")
    case True
    then show ?thesis by (subst startParent.simps, simp)+
  next
    case False
    let ?ctx = "case sharedContext of None \<Rightarrow> w_fresh w | Some c \<Rightarrow> c"
    let ?w1 = "case sharedContext of None \<Rightarrow> w\<lparr> w_fresh := Suc (w_fresh w) \<rparr> | Some c \<Rightarrow> w"
    let ?w2 = "startParent (dirname path) (Some ?ctx) ?w1"
    have IH: "w_resolved ?w2 = w_resolved ?w1
   \<and> w_calls ?w2 = w_calls ?w1
   \<and> w_abortController ?w2 = w_abortController ?w1
   \<and> (\<exists>hs. w_handles ?w2 = w_handles ?w1 @ hs
         \<and> (\<forall>h\<in>set hs. h_ctx h = ?ctx))"
      using "1.IH"[OF False refl refl] by simp
    have w1: "w_resolved ?w1 = w_resolved w" "w_calls ?w1 = w_calls w"
      "w_abortController ?w1 = w_abortController w" "w_handles ?w1 = w_handles w"
      by (simp_all split: option.splits)
    have unfold: "startParent path sharedContext w =
       ?w2\<lparr> w_handles := w_handles ?w2 @
                 [\<lparr> h_dir = dirname path, h_name = basename path, h_ctx = ?ctx,
                    h_signal = w_abortController ?w2 \<rparr>] \<rparr>"
      using False by (subst startParent.simps) (simp add: Let_def)
    from IH obtain hs where hs: "w_handles ?w2 = w_handles ?w1 @ hs" "\<forall>h\<in>set hs. h_ctx h = ?ctx"
      by blast
    show ?thesis
      unfolding unfold using IH w1 hs
      by (auto intro!: exI[of _ "hs @ [\<lparr> h_dir = dirname path, h_name = basename path, h_ctx = ?ctx,
                    h_signal = w_abortController ?w2 \<rparr>]"])
  qed
qed

lemma watch_events_snoc: "watch_events (ns @ [n]) w = watch_event n (watch_events ns w)"
  by (simp add: watch_events_def)

lemma single_fire_invariant:
  assumes "single_context c w0"
  shows "set (w_handles (watch_events ns w0)) \<subseteq> set (w_handles w0)
    \<and> (c \<in> set (w_resolved (watch_events ns w0)) \<longleftrightarrow> (\<exists>n\<in>set ns. reports_deletion w0 n))
    \<and> (c \<notin> set (w_resolved (watch_events ns w0)) \<longrightarrow>
          w_handles (watch_events ns w0) = w_handles w0 \<and> w_calls (watch_events ns w0) = 0)
    \<and> (c \<in> set (w_resolved (watch_events ns w0)) \<longrightarrow> w_calls (watch_events ns w0) = 1)"
proof (induction ns rule: rev_induct)
  case Nil
  then show ?case using assms by (simp add: watch_events_def single_context_def)
next
  case (snoc n ns)
  let ?w = "watch_events ns w0"
  obtain h ev af where n: "n = (h, ev, af)" by (cases n)
  have ctx: "h \<in> set (w_handles ?w) \<Longrightarrow> h_ctx h = c"
    using snoc assms by (auto simp: single_context_def)
  show ?case
  proof (cases "h \<in> set (w_handles ?w) \<and> ev = ''rename'' \<and> af = h_name h")
    case True
    then have rep: "reports_deletion w0 n"
      using snoc n by (auto simp: reports_deletion_def)
    have step: "watch_event n ?w = resolve c ?w"
      using True ctx n by (simp add: watch_event_def)
    show ?thesis
    proof (cases "c \<in> set (w_resolved ?w)")
      case True
      then have "resolve c ?w = ?w" by (simp add: resolve_def)
      then show ?thesis using snoc True rep by (simp add: watch_events_snoc step)
    next
      case False
      then have r: "w_resolved (resolve c ?w) = c # w_resolved ?w"
        "w_calls (resolve c ?w) = Suc (w_calls ?w)"
        "set (w_handles (resolve c ?w)) \<subseteq> set (w_handles ?w)"
        by (auto simp: resolve_def Let_def stop_watcher_def split: option.splits)
      show ?thesis using snoc False rep r by (auto simp add: watch_events_snoc step)
    qed
  next
    case False
    then have step: "watch_event n ?w = ?w"
      using n by (auto simp: watch_event_def)
    have "reports_deletion w0 n \<Longrightarrow> c \<in> set (w_resolved ?w)"
      using False snoc n by (auto simp: reports_deletion_def)
    then show ?thesis using snoc by (auto simp add: watch_events_snoc step)
  qed
qed

lemma single_context_started:
  "single_context 1 (start_resume True (new_FolderDeletionWatcher path))"
  using startParent_fields[of "segments path" None "new_FolderDeletionWatcher path"]
  by (auto simp: single_context_def start_resume_def new_FolderDeletionWatcher_def start_begin_def)

lemma single_context_started_late:
  "single_context 1 (start_resume True (stop_watcher (new_FolderDeletionWatcher path)))"
  using startParent_fields
          [of "segments path" None "stop_watcher (new_FolderDeletionWatcher path)"]
  by (auto simp: single_context_def start_resume_def new_FolderDeletionWatcher_def
        start_begin_def stop_watcher_def)

text \<open>
  Claim C4. Take a watcher whose \<^verbatim>\<open>start()\<close> found the directory and set up the chain
  of watches (also when \<^verbatim>\<open>stop()\<close> was called while \<^verbatim>\<open>start()\<close> was waiting for
  the directory check). Whatever notifications its watches deliver afterwards, on whatever
  levels and in whatever order, the callback has been invoked exactly once if one of them
  reported a rename of the child name watched at its level, and not at all otherwise; it is
  never invoked a second time.
\<close>

theorem watcher_fires_once:
  assumes "w0 = start_resume True (new_FolderDeletionWatcher path)
           \<or> w0 = start_resume True (stop_watcher (new_FolderDeletionWatcher path))"
  shows "w_calls (watch_events ns w0) = (if \<exists>n\<in>set ns. reports_deletion w0 n then 1 else 0)"
proof -
  have "single_context 1 w0"
    using assms single_context_started single_context_started_late by blast
  then show ?thesis
    using single_fire_invariant [of 1 w0 ns] by auto
qed

lemma handles_a_b:
  "w_handles (start_resume True (new_FolderDeletionWatcher ''/a/b'')) = [watch_a, watch_b]"
  by (simp add: start_resume_def new_FolderDeletionWatcher_def start_begin_def segments_def
        dirname_def basename_def watch_a_def watch_b_def Let_def)

theorem watcher_fires_once_witness:
  "w_calls (watch_events
              [(watch_b, ''change'', ''b''), (watch_b, ''rename'', ''b''),
               (watch_a, ''rename'', ''a''), (watch_b, ''rename'', ''b'')]
              (start_resume True (new_FolderDeletionWatcher ''/a/b''))) = 1"
  using watcher_fires_once
          [of "start_resume True (new_FolderDeletionWatcher ''/a/b'')" "''/a/b''"
              "[(watch_b, ''change'', ''b''), (watch_b, ''rename'', ''b''),
                (watch_a, ''rename'', ''a''), (watch_b, ''rename'', ''b'')]"]
  by (simp add: reports_deletion_def handles_a_b watch_b_def)

section \<open>The handlers and the registry of deletion watchers\<close>

lemma keys_delete: "fst ` set (AList.delete k al) = fst ` set al - {k}"
  by (induction al) auto

lemma list_all_update:
  "list_all P al \<Longrightarrow> P (k, v) \<Longrightarrow> list_all P (AList.update k v al)"
  by (induction al) auto

lemma wf_map_update: "wf_map fm \<Longrightarrow> wf_map (AList.update (mountpoint f) f fm)"
  by (simp add: wf_map_def AList.distinct_update list_all_update)

lemma wf_map_delete: "wf_map fm \<Longrightarrow> wf_map (AList.delete k fm)"
  by (induction fm) (auto simp: wf_map_def keys_delete)

lemma wf_map_lookup: "wf_map fm \<Longrightarrow> map_of fm k = Some f \<Longrightarrow> mountpoint f = k"
  by (induction fm) (auto simp: wf_map_def split: if_splits)

lemma onMount_keys:
  "map_keys (onMount f s) = insert (mountpoint f) (map_keys s)"
  "registry_keys (onMount f s) = insert (mountpoint f) (registry_keys s)"
  "handlersOn (mountie (onMount f s)) = handlersOn (mountie s)"
  "abortController (mountie (onMount f s)) = abortController (mountie s)"
  by (simp_all add: onMount_def map_keys_def registry_keys_def AList.dom_update Let_def)

lemma onMount_registered: "registered s \<Longrightarrow> registered (onMount f s)"
  unfolding registered_def onMount_keys
  by (auto simp: onMount_def Let_def wf_map_update)

lemma onUnmount_Inr:
  assumes "onUnmount f s = Inr s'"
  shows "map_keys s' = map_keys s - {mountpoint f}"
    and "registry_keys s' = registry_keys s - {mountpoint f}"
    and "handlersOn (mountie s') = handlersOn (mountie s)"
    and "abortController (mountie s') = abortController (mountie s)"
    and "wf_map (filesystemMap (mountie s)) \<Longrightarrow> wf_map (filesystemMap (mountie s'))"
proof -
  from assms have s': "s' = s\<lparr> mountie := (mountie s)\<lparr> filesystemMap :=
                  AList.delete (mountpoint f) (filesystemMap (mountie s)) \<rparr>,
             deletionWatchers := AList.delete (mountpoint f) (deletionWatchers s) \<rparr>"
    by (auto simp: onUnmount_def Let_def split: option.splits)
  show "map_keys s' = map_keys s - {mountpoint f}"
    by (simp add: s' map_keys_def keys_delete)
  show "registry_keys s' = registry_keys s - {mountpoint f}"
    by (simp add: s' registry_keys_def keys_delete)
  show "handlersOn (mountie s') = handlersOn (mountie s)"
    by (simp add: s')
  show "abortController (mountie s') = abortController (mountie s)"
    by (simp add: s')
  show "wf_map (filesystemMap (mountie s)) \<Longrightarrow> wf_map (filesystemMap (mountie s'))"
    by (simp add: s' wf_map_delete)
qed

lemma onUnmount_ok:
  assumes "mountpoint f \<in> registry_keys s"
  shows "\<exists>s'. onUnmount f s = Inr s'"
proof -
  have "map_of (deletionWatchers s) (mountpoint f) \<noteq> None"
    using assms by (simp add: registry_keys_def map_of_eq_None_iff)
  then show ?thesis
    by (auto simp: onUnmount_def Let_def split: option.splits)
qed

lemma onUnmount_registered: "registered s \<Longrightarrow> onUnmount f s = Inr s' \<Longrightarrow> registered s'"
  using onUnmount_Inr[of f s s'] by (auto simp: registered_def)

lemma emit_ok:
  assumes "registered s" and "set (unmount_target ev) \<subseteq> registry_keys s"
  shows "\<exists>s'. emit ev s = Inr s' \<and> registered s'
           \<and> registry_keys s - set (unmount_target ev) \<subseteq> registry_keys s'
           \<and> handlersOn (mountie s') = handlersOn (mountie s)
           \<and> abortController (mountie s') = abortController (mountie s)"
proof (cases ev)
  case (Mount f)
  then show ?thesis using assms onMount_registered[of s f] by (auto simp: onMount_keys)
next
  case (Rename f old)
  show ?thesis
  proof (cases "handlersOn (mountie s) \<and> mounted old")
    case True
    then obtain s1 where s1: "onUnmount old s = Inr s1"
      using onUnmount_ok[of old s] assms Rename by auto
    note u = onUnmount_Inr[OF s1] onUnmount_registered[OF assms(1) s1]
    show ?thesis
      using True Rename s1 u onMount_registered[of s1 f]
      by (auto simp: onRename_def onMount_keys)
  next
    case False
    then show ?thesis using Rename assms onMount_registered[of s f]
      by (auto simp: onRename_def onMount_keys)
  qed
next
  case (Unmount f)
  show ?thesis
  proof (cases "handlersOn (mountie s)")
    case True
    then obtain s1 where s1: "onUnmount f s = Inr s1"
      using onUnmount_ok[of f s] assms Unmount by auto
    note u = onUnmount_Inr[OF s1] onUnmount_registered[OF assms(1) s1]
    show ?thesis using True Unmount s1 u by auto
  next
    case False
    then show ?thesis using Unmount assms by auto
  qed
qed

lemma emit_all_ok:
  assumes "registered s"
    and "distinct (concat (map unmount_target evs))"
    and "set (concat (map unmount_target evs)) \<subseteq> registry_keys s"
  shows "\<exists>s'. emit_all evs s = Inr s' \<and> registered s'
           \<and> handlersOn (mountie s') = handlersOn (mountie s)
           \<and> abortController (mountie s') = abortController (mountie s)"
  using assms
proof (induction evs arbitrary: s)
  case Nil
  then show ?case by simp
next
  case (Cons ev evs)
  from Cons.prems obtain s1 where s1: "emit ev s = Inr s1" "registered s1"
      "registry_keys s - set (unmount_target ev) \<subseteq> registry_keys s1"
      "handlersOn (mountie s1) = handlersOn (mountie s)"
      "abortController (mountie s1) = abortController (mountie s)"
    using emit_ok[of s ev] by auto
  have d: "distinct (concat (map unmount_target evs))"
    using Cons.prems by simp
  have "set (concat (map unmount_target evs)) \<subseteq> registry_keys s - set (unmount_target ev)"
    using Cons.prems by auto
  then have sub: "set (concat (map unmount_target evs)) \<subseteq> registry_keys s1"
    using s1(3) by blast
  from Cons.IH[OF s1(2) d sub] s1 show ?case by auto
qed

lemma targets_mount_pass: "concat (map unmount_target (mount_pass isDirectory fm completed)) = []"
  by (induction completed) (auto simp: mount_pass_def Let_def)

lemma targets_unmount_rename_pass:
  "concat (map unmount_target (unmount_rename_pass u olds)) =
     map mountpoint (filter (\<lambda>old. case map_of u (uuid old) of None \<Rightarrow> True
                                | Some f \<Rightarrow> label f \<noteq> label old \<and> mounted old) olds)"
  by (induction olds) (auto simp: unmount_rename_pass_def split: option.splits)

lemma targets_monitor_events:
  assumes "wf_map (filesystemMap m)"
  shows "distinct (concat (map unmount_target (monitor_events e isDirectory m newState completed)))"
    and "set (concat (map unmount_target (monitor_events e isDirectory m newState completed)))
           \<subseteq> fst ` set (filesystemMap m)"
proof -
  let ?P = "\<lambda>old. case map_of (uuidFilesystemMap_of newState) (uuid old) of None \<Rightarrow> True
                                | Some f \<Rightarrow> label f \<noteq> label old \<and> mounted old"
  have eq: "concat (map unmount_target (monitor_events e isDirectory m newState completed))
        = map mountpoint (filter ?P (state e m))"
    by (simp add: monitor_events_def targets_mount_pass targets_unmount_rename_pass)
  show "distinct (concat (map unmount_target (monitor_events e isDirectory m newState completed)))"
    unfolding eq using distinct_mountpoints_state[OF assms, of e] distinct_map_filter by blast
  have "set (map mountpoint (state e m)) = set (map mountpoint (map snd (filesystemMap m)))"
    by (simp add: state_def set_sortFilesystems image_image)
  also have "\<dots> = set (map fst (filesystemMap m))"
    using wf_map_mountpoints[OF assms] by (rule arg_cong)
  also have "\<dots> = fst ` set (filesystemMap m)"
    by simp
  finally show "set (concat (map unmount_target (monitor_events e isDirectory m newState completed)))
           \<subseteq> fst ` set (filesystemMap m)"
    unfolding eq by auto
qed

lemma monitor_cycle_ok:
  assumes "registered s"
  shows "\<exists>s'. monitor_cycle e isDirectory newState completed s = Inr s' \<and> registered s'"
proof (cases "running (mountie s)")
  case False
  then show ?thesis using assms by (simp add: monitor_cycle_def)
next
  case True
  let ?evs = "monitor_events e isDirectory (mountie s) newState completed"
  have wf: "wf_map (filesystemMap (mountie s))" using assms by (simp add: registered_def)
  have "fst ` set (filesystemMap (mountie s)) \<subseteq> registry_keys s"
    using assms by (simp add: registered_def map_keys_def)
  with targets_monitor_events(2)[OF wf, of e isDirectory newState completed]
  have "set (concat (map unmount_target ?evs)) \<subseteq> registry_keys s"
    by (rule subset_trans)
  from emit_all_ok[OF assms targets_monitor_events(1)[OF wf] this]
  obtain s1 where s1: "emit_all ?evs s = Inr s1" "registered s1" by blast
  have "registered (s1\<lparr> mountie := emit_refresh (mountie s1) \<rparr>)"
    using s1(2) by (simp add: registered_def emit_refresh_def map_keys_def registry_keys_def)
  then show ?thesis using True s1 by (simp add: monitor_cycle_def)
qed

lemma watcher_callback_ok:
  assumes "registered s"
  shows "\<exists>s'. watcher_callback path s = Inr s' \<and> registered s'"
proof (cases "map_of (filesystemMap (mountie s)) path")
  case None
  then show ?thesis using assms by (simp add: watcher_callback_def)
next
  case (Some f)
  have mp: "mountpoint f = path"
    using wf_map_lookup[OF _ Some] assms by (simp add: registered_def)
  have "path \<in> map_keys s"
    using Some by (metis map_keys_def map_of_eq_None_iff option.distinct(1))
  then have "set (unmount_target (Unmount f)) \<subseteq> registry_keys s"
    using assms mp by (auto simp: registered_def)
  from emit_ok[OF assms this] show ?thesis using Some by (auto simp: watcher_callback_def)
qed

lemma apply_op_ok:
  assumes "registered s"
  shows "\<exists>s'. apply_op e x s = Inr s' \<and> registered s'"
proof (cases x)
  case Start
  then show ?thesis using assms
    by (auto simp: registered_def start_def map_keys_def registry_keys_def wf_map_def)
next
  case Stop
  then show ?thesis using assms
    by (auto simp: registered_def stop_def map_keys_def registry_keys_def)
next
  case (Cycle isDirectory newState completed)
  then show ?thesis using monitor_cycle_ok[OF assms] by simp
next
  case (WatcherFires path)
  then show ?thesis using watcher_callback_ok[OF assms] by simp
qed

lemma run_ops_ok:
  assumes "registered s"
  shows "\<exists>s'. run_ops e ops s = Inr s' \<and> registered s'"
  using assms
proof (induction ops arbitrary: s)
  case Nil
  then show ?case by simp
next
  case (Cons x ops)
  from apply_op_ok[OF Cons.prems, of e x] obtain s1 where "apply_op e x s = Inr s1" "registered s1"
    by blast
  then show ?case using Cons.IH[of s1] by simp
qed

lemma emit_keeps_equal:
  assumes "emit ev s = Inr s'" and "map_keys s = registry_keys s"
  shows "map_keys s' = registry_keys s'"
proof (cases "handlersOn (mountie s)")
  case False
  then show ?thesis using assms by (cases ev) auto
next
  case True
  show ?thesis
  proof (cases ev)
    case (Mount f)
    then show ?thesis using assms True by (auto simp: onMount_keys)
  next
    case (Rename f old)
    show ?thesis
    proof (cases "mounted old")
      case m: True
      then obtain s1 where s1: "onUnmount old s = Inr s1"
        using assms True Rename by (auto simp: onRename_def split: sum.splits)
      then show ?thesis
        using assms True Rename m onUnmount_Inr(1,2)[OF s1]
        by (auto simp: onRename_def onMount_keys split: if_splits)
    next
      case False
      then show ?thesis using assms True Rename
        by (auto simp: onRename_def onMount_keys split: if_splits)
    qed
  next
    case (Unmount f)
    then show ?thesis using assms True onUnmount_Inr(1,2)[of f s s'] by auto
  qed
qed

lemma mountpoints_state:
  assumes "wf_map (filesystemMap m)"
  shows "mountpoint ` set (state e m) = fst ` set (filesystemMap m)"
proof -
  have "mountpoint ` set (state e m) = set (map mountpoint (map snd (filesystemMap m)))"
    by (simp add: state_def set_sortFilesystems image_image)
  also have "\<dots> = set (map fst (filesystemMap m))"
    using wf_map_mountpoints [OF assms] by (rule arg_cong)
  finally show ?thesis by simp
qed

text \<open>
  Claim C10, as the code has it. Whatever one instance goes through (starts, stops, cycles
  of the monitor loop with any snapshots, callbacks of deletion watchers for any paths), no
  handler throws, and after every step every key of the filesystem map is a key of the
  registry, so that an Unmount of any entry of the state finds its watcher. A handler step
  keeps the two key sets equal when they were equal before it. They need not be equal:
  \<^verbatim>\<open>start()\<close> empties the filesystem map and leaves the registry as it is.
\<close>

theorem handlers_never_fail:
  "\<exists>s. run_ops e ops new_module = Inr s
       \<and> map_keys s \<subseteq> registry_keys s
       \<and> (\<forall>f\<in>set (state e (mountie s)). map_of (deletionWatchers s) (mountpoint f) \<noteq> None)
       \<and> (\<forall>ev s'. emit ev s = Inr s' \<and> map_keys s = registry_keys s
               \<longrightarrow> map_keys s' = registry_keys s')"
proof -
  have "registered new_module"
    by (simp add: registered_def new_module_def new_Mountie_def wf_map_def map_keys_def)
  then obtain s where s: "run_ops e ops new_module = Inr s" "registered s"
    using run_ops_ok by blast
  have sub: "map_keys s \<subseteq> registry_keys s"
    using s(2) by (simp add: registered_def)
  have "map_of (deletionWatchers s) (mountpoint f) \<noteq> None" if "f \<in> set (state e (mountie s))" for f
  proof -
    have "mountpoint f \<in> fst ` set (filesystemMap (mountie s))"
      using that mountpoints_state [of "mountie s" e] s(2) by (auto simp: registered_def)
    then have "mountpoint f \<in> fst ` set (deletionWatchers s)"
      using sub by (auto simp: map_keys_def registry_keys_def)
    then show ?thesis by (simp add: map_of_eq_None_iff)
  qed
  then show ?thesis
    using s(1) sub emit_keeps_equal by blast
qed

theorem handlers_never_fail_witness:
  "\<exists>s. run_ops test_env
          [Start, Cycle (\<lambda>p. True) [fsA, fsB] [fsB, fsA], WatcherFires ''/mnt/a'',
           Cycle (\<lambda>p. True) [fsA_renamed] [fsA_renamed], Stop]
          new_module = Inr s
       \<and> map_keys s \<subseteq> registry_keys s"
  using handlers_never_fail
          [of test_env
              "[Start, Cycle (\<lambda>p. True) [fsA, fsB] [fsB, fsA], WatcherFires ''/mnt/a'',
                Cycle (\<lambda>p. True) [fsA_renamed] [fsA_renamed], Stop]"]
  by blast

text \<open>
  Claim C10 as stated fails: the instance is started, mounts \<open>fsA\<close> and \<open>fsB\<close>, is
  stopped and started again. After the next handler step, the Mount of \<open>fsA\<close>, the
  filesystem map has the key \<open>/mnt/a\<close> and the registry has \<open>/mnt/a\<close> and
  \<open>/mnt/b\<close>.
\<close>

theorem keys_differ_after_restart_counterexample:
  "case run_ops test_env
          [Start, Cycle (\<lambda>p. True) [fsA, fsB] [fsA, fsB], Stop, Start] new_module of
     Inl err \<Rightarrow> False
   | Inr s \<Rightarrow>
       (case emit (Mount fsA) s of
          Inl err \<Rightarrow> False
        | Inr s' \<Rightarrow> map fst (filesystemMap (mountie s')) = [''/mnt/a'']
             \<and> map fst (deletionWatchers s') = [''/mnt/a'', ''/mnt/b''])"
  by (simp add: new_module_def monitor_cycle_def cycle_defs stop_def onMount_def fsA_def fsB_def
        emit_refresh_def)

end
